theory Spec2Isabelle
  imports Main
begin

section \<open>Python values\<close>

text \<open>
  The two programs, \<^verbatim>\<open>split.py\<close> and \<^verbatim>\<open>verify.py\<close>, work on text, on Python integers and on
  documents decoded by \<^verbatim>\<open>yaml.safe_load\<close>. Text is a \<^typ>\<open>string\<close>: one \<^typ>\<open>char\<close> per code
  point, so the model covers the texts whose code points are below 256. Python integers are
  \<^typ>\<open>int\<close>. A decoded document is a \<open>yval\<close>; a mapping keeps its insertion order, as a
  Python \<^verbatim>\<open>dict\<close> does, and is an association list. Floating point scalars are left out.
\<close>

datatype yval =
    YNull
  | YBool bool
  | YInt int
  | YStr string
  | YList "yval list"
  | YDict "(yval \<times> yval) list"

type_synonym pydict = "(yval \<times> yval) list"

datatype error = ValueError | KeyError | TypeError | ReError

text \<open>Truth value of an object, as \<^verbatim>\<open>bool(x)\<close>, \<^verbatim>\<open>if x\<close> and \<^verbatim>\<open>not x\<close> read it.\<close>

fun truthy :: "yval \<Rightarrow> bool" where
  "truthy YNull = False"
| "truthy (YBool b) = b"
| "truthy (YInt i) = (i \<noteq> 0)"
| "truthy (YStr s) = (s \<noteq> [])"
| "truthy (YList xs) = (xs \<noteq> [])"
| "truthy (YDict d) = (d \<noteq> [])"

text \<open>Lists and dicts cannot be hashed: using one as a dict key raises \<^verbatim>\<open>TypeError\<close>.\<close>

fun hashable :: "yval \<Rightarrow> bool" where
  "hashable (YList xs) = False"
| "hashable (YDict d) = False"
| "hashable v = True"

text \<open>\<^verbatim>\<open>isinstance(x, int)\<close>: \<^verbatim>\<open>bool\<close> is a subclass of \<^verbatim>\<open>int\<close>, with \<^verbatim>\<open>True == 1\<close>.\<close>

fun as_int :: "yval \<Rightarrow> int option" where
  "as_int (YInt i) = Some i"
| "as_int (YBool b) = Some (if b then 1 else 0)"
| "as_int v = None"

text \<open>\<^verbatim>\<open>k == x\<close> for a hashable \<open>k\<close>: numbers compare by value, everything else by shape.\<close>

definition key_eq :: "yval \<Rightarrow> yval \<Rightarrow> bool" where
  "key_eq k x =
     (case as_int k of
        Some i \<Rightarrow> as_int x = Some i
      | None \<Rightarrow> (case x of YNull \<Rightarrow> k = YNull | YStr s \<Rightarrow> k = YStr s | _ \<Rightarrow> False))"

fun dict_get :: "pydict \<Rightarrow> yval \<Rightarrow> yval option" where
  "dict_get [] k = None"
| "dict_get ((k', v) # d) k = (if key_eq k k' then Some v else dict_get d k)"

text \<open>\<^verbatim>\<open>d[k] = v\<close>: an existing key keeps its place (and its key object), a new one goes last.\<close>

fun dict_set :: "yval \<Rightarrow> yval \<Rightarrow> pydict \<Rightarrow> pydict" where
  "dict_set k v [] = [(k, v)]"
| "dict_set k v ((k', v') # d) = (if key_eq k k' then (k', v) # d else (k', v') # dict_set k v d)"

text \<open>\<^verbatim>\<open>d.get(k)\<close> and \<^verbatim>\<open>k in d\<close>, which hash \<open>k\<close> first.\<close>

definition py_get :: "pydict \<Rightarrow> yval \<Rightarrow> error + yval" where
  "py_get d k =
     (if \<not> hashable k then Inl TypeError
      else Inr (case dict_get d k of Some v \<Rightarrow> v | None \<Rightarrow> YNull))"

definition py_in :: "yval \<Rightarrow> pydict \<Rightarrow> error + bool" where
  "py_in k d = (if \<not> hashable k then Inl TypeError else Inr (dict_get d k \<noteq> None))"

text \<open>\<^verbatim>\<open>field.get("key", default)\<close> and \<^verbatim>\<open>field.get("key")\<close> with a string literal as key.\<close>

definition fget_default :: "pydict \<Rightarrow> string \<Rightarrow> yval \<Rightarrow> yval" where
  "fget_default field key dflt = (case dict_get field (YStr key) of Some v \<Rightarrow> v | None \<Rightarrow> dflt)"

definition fget :: "pydict \<Rightarrow> string \<Rightarrow> yval" where
  "fget field key = fget_default field key YNull"

text \<open>\<^verbatim>\<open>for k in x\<close>: a list gives its items, a dict its keys, a string its characters.\<close>

fun py_iter :: "yval \<Rightarrow> error + yval list" where
  "py_iter (YList xs) = Inr xs"
| "py_iter (YDict d) = Inr (map fst d)"
| "py_iter (YStr s) = Inr (map (\<lambda>c. YStr [c]) s)"
| "py_iter v = Inl TypeError"

subsection \<open>Text\<close>

text \<open>
  \<^verbatim>\<open>str.isspace\<close>, which \<^verbatim>\<open>str.strip()\<close> and the pattern class \<^verbatim>\<open>\s\<close> use: below 256 these are
  the code points 9 to 13, 28 to 32, 133 and 160. \<^verbatim>\<open>\d\<close> is a decimal digit: below 256 only
  \<^verbatim>\<open>0\<close> to \<^verbatim>\<open>9\<close>.
\<close>

definition is_space :: "char \<Rightarrow> bool" where
  "is_space c = (c \<in> set [CHR 0x09, CHR 0x0A, CHR 0x0B, CHR 0x0C, CHR 0x0D,
                            CHR 0x1C, CHR 0x1D, CHR 0x1E, CHR 0x1F, CHR 0x20, CHR 0x85, CHR 0xA0])"

definition is_digit :: "char \<Rightarrow> bool" where
  "is_digit c = (c \<in> set ''0123456789'')"

definition strip :: "string \<Rightarrow> string" where
  "strip s = rev (dropWhile is_space (rev (dropWhile is_space s)))"

text \<open>\<^verbatim>\<open>"\n".join(lines)\<close>\<close>

fun join_nl :: "string list \<Rightarrow> string" where
  "join_nl [] = []"
| "join_nl [l] = l"
| "join_nl (l # ls) = l @ [CHR 0x0A] @ join_nl ls"

text \<open>
  \<^verbatim>\<open>str.splitlines()\<close>: a line ends at \<^verbatim>\<open>\n\<close>, \<^verbatim>\<open>\r\<close>, \<^verbatim>\<open>\r\n\<close>, \<^verbatim>\<open>\v\<close>, \<^verbatim>\<open>\f\<close>, \<^verbatim>\<open>\x1c\<close>, \<^verbatim>\<open>\x1d\<close>,
  \<^verbatim>\<open>\x1e\<close> or \<^verbatim>\<open>\x85\<close>; the terminators are dropped, and text that ends with one has no empty
  last line. \<open>cur\<close> is the line read so far.
\<close>

definition is_linebreak :: "char \<Rightarrow> bool" where
  "is_linebreak c = (c \<in> set [CHR 0x0A, CHR 0x0B, CHR 0x0C, CHR 0x0D,
                                CHR 0x1C, CHR 0x1D, CHR 0x1E, CHR 0x85])"

fun splitlines_from :: "string \<Rightarrow> string \<Rightarrow> string list" where
  "splitlines_from cur [] = (if cur = [] then [] else [cur])"
| "splitlines_from cur [c] = (if is_linebreak c then [cur] else [cur @ [c]])"
| "splitlines_from cur (c # d # cs) =
     (if c = CHR 0x0D \<and> d = CHR 0x0A then cur # splitlines_from [] cs
      else if is_linebreak c then cur # splitlines_from [] (d # cs)
      else splitlines_from (cur @ [c]) (d # cs))"

definition splitlines :: "string \<Rightarrow> string list" where
  "splitlines text = splitlines_from [] text"

text \<open>\<^verbatim>\<open>str(k)\<close> of a scalar, and the format \<^verbatim>\<open>{ch_id:04d}\<close>.\<close>

fun digits :: "nat \<Rightarrow> string" where
  "digits n = (if n < 10 then [char_of (48 + n)] else digits (n div 10) @ [char_of (48 + n mod 10)])"

definition str_int :: "int \<Rightarrow> string" where
  "str_int i = (if i < 0 then ''-'' @ digits (nat (- i)) else digits (nat i))"

definition fmt_04d :: "int \<Rightarrow> string" where
  "fmt_04d i =
     (if i < 0 then ''-'' @ replicate (3 - length (digits (nat (- i)))) CHR ''0'' @ digits (nat (- i))
      else replicate (4 - length (digits (nat i))) CHR ''0'' @ digits (nat i))"

fun py_str :: "yval \<Rightarrow> string" where
  "py_str (YStr s) = s"
| "py_str (YInt i) = str_int i"
| "py_str (YBool b) = (if b then ''True'' else ''False'')"
| "py_str v = ''None''"

section \<open>split.py\<close>

subsection \<open>The turn-start pattern\<close>

text \<open>
  \<^verbatim>\<open>MSG_START_RE = re.compile(r"^\[(20\d{2}-\d{2}-\d{2}\s+\d{2}:\d{2}:\d{2})\]\s*(.+?):\s*(.*)$")\<close>

  The pattern is matched the way \<^verbatim>\<open>re.match\<close> does it, by backtracking: each piece of the
  pattern takes the text still to be read and a continuation for the rest of the pattern. A
  greedy star tries the longest run first, a lazy one the shortest. \<^verbatim>\<open>.\<close> is any character but
  \<^verbatim>\<open>\n\<close>, and \<^verbatim>\<open>$\<close> holds at the end of the text or before a last \<^verbatim>\<open>\n\<close>.
\<close>

fun lit :: "char \<Rightarrow> (string \<Rightarrow> 'a option) \<Rightarrow> string \<Rightarrow> 'a option" where
  "lit c k [] = None"
| "lit c k (x # xs) = (if x = c then k xs else None)"

fun cls :: "(char \<Rightarrow> bool) \<Rightarrow> (string \<Rightarrow> 'a option) \<Rightarrow> string \<Rightarrow> 'a option" where
  "cls p k [] = None"
| "cls p k (x # xs) = (if p x then k xs else None)"

fun star :: "(char \<Rightarrow> bool) \<Rightarrow> (string \<Rightarrow> 'a option) \<Rightarrow> string \<Rightarrow> 'a option" where
  "star p k [] = k []"
| "star p k (x # xs) =
     (if p x then (case star p k xs of Some r \<Rightarrow> Some r | None \<Rightarrow> k (x # xs)) else k (x # xs))"

fun lazy_star :: "(char \<Rightarrow> bool) \<Rightarrow> (string \<Rightarrow> 'a option) \<Rightarrow> string \<Rightarrow> 'a option" where
  "lazy_star p k [] = k []"
| "lazy_star p k (x # xs) =
     (case k (x # xs) of Some r \<Rightarrow> Some r | None \<Rightarrow> if p x then lazy_star p k xs else None)"

definition any_char :: "char \<Rightarrow> bool" where
  "any_char c = (c \<noteq> CHR 0x0A)"

definition at_end :: "string \<Rightarrow> bool" where
  "at_end s = (s = [] \<or> s = [CHR 0x0A])"

text \<open>The text a group has taken: what was left when it began, less what is left when it ends.\<close>

definition taken :: "string \<Rightarrow> string \<Rightarrow> string" where
  "taken s s' = take (length s - length s') s"

text \<open>\<^verbatim>\<open>\d{2}\<close>\<close>

definition two_digits :: "(string \<Rightarrow> 'a option) \<Rightarrow> string \<Rightarrow> 'a option" where
  "two_digits k = cls is_digit (cls is_digit k)"

text \<open>The three groups of a match: timestamp, speaker, inline content.\<close>

definition msg_start_match :: "string \<Rightarrow> (string \<times> string \<times> string) option" where
  "msg_start_match line =
     lit CHR ''['' (\<lambda>s1.
       (lit CHR ''2'' (lit CHR ''0'' (two_digits (lit CHR ''-'' (two_digits (lit CHR ''-'' (two_digits
       (cls is_space (star is_space
       (two_digits (lit CHR '':'' (two_digits (lit CHR '':'' (two_digits (\<lambda>s2.
         lit CHR '']'' (star is_space (\<lambda>s3.
           cls any_char (lazy_star any_char (\<lambda>s4.
             lit CHR '':'' (star is_space (\<lambda>s5.
               star any_char (\<lambda>s6.
                 if at_end s6 then Some (taken s1 s2, taken s3 s4, taken s5 s6) else None) s5)) s4)) s3)) s2
       ))))))))))))))) s1) line"

text \<open>\<^verbatim>\<open>if m:\<close>, for the match object \<open>m\<close> of a line.\<close>

definition is_marker :: "string \<Rightarrow> bool" where
  "is_marker line = (msg_start_match line \<noteq> None)"

subsection \<open>parse_turns\<close>

record turn =
  idx :: int
  timestamp :: string
  speaker :: string
  content :: string

text \<open>The dict \<^verbatim>\<open>current\<close> of the turn that is open.\<close>

record open_turn =
  o_timestamp :: string
  o_speaker :: string
  content_lines :: "string list"

record parse_state =
  turns :: "turn list"
  current :: "open_turn option"
  p_idx :: int

text \<open>Closing the open turn: \<^verbatim>\<open>idx += 1; turns.append(Turn(...))\<close>.\<close>

definition close_turn :: "parse_state \<Rightarrow> parse_state" where
  "close_turn st =
     (case current st of
        None \<Rightarrow> st
      | Some cur \<Rightarrow>
          st\<lparr>p_idx := p_idx st + 1,
             turns := turns st @ [\<lparr>idx = p_idx st + 1, timestamp = o_timestamp cur,
                                    speaker = o_speaker cur,
                                    content = strip (join_nl (content_lines cur))\<rparr>]\<rparr>)"

text \<open>The body of \<^verbatim>\<open>for line in lines\<close>.\<close>

definition parse_line :: "parse_state \<Rightarrow> string \<Rightarrow> parse_state" where
  "parse_line st line =
     (case msg_start_match line of
        Some (ts, sp, first_tail) \<Rightarrow>
          (close_turn st)\<lparr>current :=
             Some \<lparr>o_timestamp = ts, o_speaker = strip sp,
                   content_lines = (if first_tail \<noteq> [] then [first_tail] else [])\<rparr>\<rparr>
      | None \<Rightarrow>
          (case current st of
             None \<Rightarrow> st
           | Some cur \<Rightarrow> st\<lparr>current := Some (cur\<lparr>content_lines := content_lines cur @ [line]\<rparr>)\<rparr>))"

definition parse_turns :: "string \<Rightarrow> turn list" where
  "parse_turns text =
     turns (close_turn (foldl parse_line \<lparr>turns = [], current = None, p_idx = 0\<rparr> (splitlines text)))"

text \<open>
  What the loop of \<^verbatim>\<open>parse_turns\<close> keeps true: the counter is the number of closed turns,
  their indices count up from 1, and the closed turns and the open one together are the
  marker lines read so far.
\<close>

definition parse_inv :: "parse_state \<Rightarrow> nat \<Rightarrow> bool" where
  "parse_inv st n =
     (p_idx st = int (length (turns st)) \<and>
      map idx (turns st) = map int [1 ..< Suc (length (turns st))] \<and>
      length (turns st) + (if current st = None then 0 else 1) = n)"

subsection \<open>The turn-start marker, in words\<close>

text \<open>
  The shape of a turn-start line as a sentence gives it: \<^verbatim>\<open>[\<close>, a date \<^verbatim>\<open>20YY-MM-DD\<close>, a gap, a time
  \<^verbatim>\<open>HH:MM:SS\<close>, \<^verbatim>\<open>]\<close>, optional whitespace, a speaker of one or more characters, \<^verbatim>\<open>:\<close>, optional
  whitespace, and the rest of the line. \<open>spec_turn_start\<close> follows the words of the
  specification, where the gap is one space; \<open>turn_start_shape\<close> has a gap of one or more
  whitespace characters.
\<close>

definition date_shape :: "string \<Rightarrow> bool" where
  "date_shape d =
     (case d of
        [c1, c2, y1, y2, h1, m1, m2, h2, d1, d2] \<Rightarrow>
          c1 = CHR ''2'' \<and> c2 = CHR ''0'' \<and> is_digit y1 \<and> is_digit y2 \<and> h1 = CHR ''-'' \<and>
          is_digit m1 \<and> is_digit m2 \<and> h2 = CHR ''-'' \<and> is_digit d1 \<and> is_digit d2
      | _ \<Rightarrow> False)"

definition time_shape :: "string \<Rightarrow> bool" where
  "time_shape t =
     (case t of
        [h1, h2, c1, m1, m2, c2, s1, s2] \<Rightarrow>
          is_digit h1 \<and> is_digit h2 \<and> c1 = CHR '':'' \<and> is_digit m1 \<and> is_digit m2 \<and>
          c2 = CHR '':'' \<and> is_digit s1 \<and> is_digit s2
      | _ \<Rightarrow> False)"

definition marker_shape :: "(string \<Rightarrow> bool) \<Rightarrow> string \<Rightarrow> bool" where
  "marker_shape gap line =
     (\<exists>d w t ws sp ws' rest.
        line = ''['' @ d @ w @ t @ '']'' @ ws @ sp @ '':'' @ ws' @ rest \<and>
        date_shape d \<and> gap w \<and> time_shape t \<and>
        list_all is_space ws \<and> sp \<noteq> [] \<and> list_all is_space ws')"

definition spec_turn_start :: "string \<Rightarrow> bool" where
  "spec_turn_start line = marker_shape (\<lambda>w. w = '' '') line"

definition turn_start_shape :: "string \<Rightarrow> bool" where
  "turn_start_shape line = marker_shape (\<lambda>w. w \<noteq> [] \<and> list_all is_space w) line"

subsection \<open>chunk_indices\<close>

record chunk_range =
  ch_id :: int
  start_i :: int
  end_i :: int

text \<open>
  The \<^verbatim>\<open>while\<close> loop, with its variables \<open>start\<close>, \<open>ch\<close> and \<open>ranges\<close> as arguments. Nothing in
  the loop itself bounds the number of rounds, so the result is an option: \<open>None\<close> is a loop
  that never ends.
\<close>

partial_function (option) chunk_loop ::
  "int \<Rightarrow> int \<Rightarrow> int \<Rightarrow> int \<Rightarrow> int \<Rightarrow> chunk_range list \<Rightarrow> chunk_range list option" where
  "chunk_loop total_turns chunk_size overlap start ch ranges =
     (if start < total_turns then
        (let e = min (start + chunk_size) total_turns;
             ranges' = ranges @ [\<lparr>ch_id = ch, start_i = start, end_i = e\<rparr>];
             ch' = ch + 1
         in if e = total_turns then Some ranges'
            else chunk_loop total_turns chunk_size overlap (max (e - overlap) 0) ch' ranges')
      else Some ranges)"

declare chunk_loop.simps [code]

definition chunk_indices :: "int \<Rightarrow> int \<Rightarrow> int \<Rightarrow> (error + chunk_range list) option" where
  "chunk_indices total_turns chunk_size overlap =
     (if chunk_size \<le> 0 then Some (Inl ValueError)
      else if overlap < 0 \<or> overlap \<ge> chunk_size then Some (Inl ValueError)
      else map_option Inr (chunk_loop total_turns chunk_size overlap 0 1 []))"

text \<open>The turns a range selects, \<^verbatim>\<open>turns[r["start_i"] : r["end_i"]]\<close>, as indices.\<close>

definition range_turns :: "chunk_range \<Rightarrow> int list" where
  "range_turns r = [start_i r .. end_i r - 1]"

definition covers :: "chunk_range \<Rightarrow> int \<Rightarrow> bool" where
  "covers r i = (start_i r \<le> i \<and> i < end_i r)"

subsection \<open>Skeleton records\<close>

text \<open>
  The decoded schema: \<^verbatim>\<open>schema.get("fields", [])\<close>, a list of field mappings, and
  \<^verbatim>\<open>schema.get("derived", {}) or {}\<close>, a mapping from field names to rule names.
\<close>

record schema =
  schema_fields :: "pydict list"
  schema_derived :: pydict

text \<open>
  \<^verbatim>\<open>_date_ymd_slash\<close> and \<^verbatim>\<open>_time_hms\<close>. \<^verbatim>\<open>timestamp.split(" ", 1)\<close> cuts at the first space, if
  there is one.
\<close>

definition date_ymd_slash :: "string \<Rightarrow> string" where
  "date_ymd_slash ts =
     map (\<lambda>c. if c = CHR ''-'' then CHR ''/'' else c) (strip (takeWhile (\<lambda>c. c \<noteq> CHR '' '') ts))"

definition time_hms :: "string \<Rightarrow> string" where
  "time_hms ts =
     (if CHR '' '' \<in> set ts then strip (tl (dropWhile (\<lambda>c. c \<noteq> CHR '' '') ts)) else [])"

text \<open>\<^verbatim>\<open>derived_value\<close>: \<open>YNull\<close> is the \<^verbatim>\<open>None\<close> it returns when no rule is bound.\<close>

definition derived_value :: "yval \<Rightarrow> turn \<Rightarrow> turn \<Rightarrow> pydict \<Rightarrow> error + yval" where
  "derived_value name first_turn last_turn drv =
     (case py_get drv name of
        Inl e \<Rightarrow> Inl e
      | Inr fn \<Rightarrow>
          if \<not> truthy fn then Inr YNull
          else if fn = YStr ''from_first_turn_date_ymd_slash'' then
            Inr (YStr (date_ymd_slash (timestamp first_turn)))
          else if fn = YStr ''from_first_last_turn_time_range'' then
            (let t1 = time_hms (timestamp first_turn);
                 t2 = time_hms (timestamp last_turn)
             in Inr (YStr (if t2 = [] \<or> t1 = t2 then t1 else t1 @ ''-'' @ t2)))
          else Inl ValueError)"

text \<open>\<^verbatim>\<open>{k: "" for k in keys}\<close>\<close>

fun blank_dict :: "yval list \<Rightarrow> pydict \<Rightarrow> error + pydict" where
  "blank_dict [] d = Inr d"
| "blank_dict (k # ks) d =
     (if \<not> hashable k then Inl TypeError else blank_dict ks (dict_set k (YStr []) d))"

definition default_value_for_field :: "pydict \<Rightarrow> error + yval" where
  "default_value_for_field field =
     (let t = fget field ''type'' in
      if t = YStr ''string'' then Inr (YStr [])
      else if t = YStr ''list'' then Inr (YList [])
      else if t = YStr ''dict'' then
        (case py_iter (fget_default field ''dict_keys'' (YList [])) of
           Inl e \<Rightarrow> Inl e
         | Inr keys \<Rightarrow> (case blank_dict keys [] of Inl e \<Rightarrow> Inl e | Inr d \<Rightarrow> Inr (YDict d)))
      else Inr YNull)"

text \<open>The value \<^verbatim>\<open>make_skeleton\<close> stores for a field: the derived one, or else the default.\<close>

definition field_value :: "pydict \<Rightarrow> yval \<Rightarrow> turn \<Rightarrow> turn \<Rightarrow> pydict \<Rightarrow> error + yval" where
  "field_value field name first_turn last_turn drv =
     (case derived_value name first_turn last_turn drv of
        Inl e \<Rightarrow> Inl e
      | Inr dv \<Rightarrow> if dv \<noteq> YNull then Inr dv else default_value_for_field field)"

text \<open>
  The loop of \<^verbatim>\<open>make_skeleton\<close>, with \<open>out\<close> as it stands. \<^verbatim>\<open>field["name"]\<close> raises \<^verbatim>\<open>KeyError\<close>
  when the field has no name. In \<^verbatim>\<open>out[name] = ...\<close> the name is hashable, since
  \<^verbatim>\<open>derived.get(name)\<close> has returned.
\<close>

fun skeleton_loop :: "pydict list \<Rightarrow> turn \<Rightarrow> turn \<Rightarrow> pydict \<Rightarrow> pydict \<Rightarrow> error + pydict" where
  "skeleton_loop [] first_turn last_turn drv out = Inr out"
| "skeleton_loop (field # fs) first_turn last_turn drv out =
     (case dict_get field (YStr ''name'') of
        None \<Rightarrow> Inl KeyError
      | Some name \<Rightarrow>
          (case field_value field name first_turn last_turn drv of
             Inl e \<Rightarrow> Inl e
           | Inr v \<Rightarrow> skeleton_loop fs first_turn last_turn drv (dict_set name v out)))"

definition make_skeleton :: "schema \<Rightarrow> turn \<Rightarrow> turn \<Rightarrow> error + pydict" where
  "make_skeleton sch first_turn last_turn =
     skeleton_loop (schema_fields sch) first_turn last_turn (schema_derived sch) []"

text \<open>
  \<^verbatim>\<open>write_memory_yaml\<close>. The files of \<^verbatim>\<open>out_dir\<close> are a map from file name to content;
  \<^verbatim>\<open>mkdir(parents=True, exist_ok=True)\<close> leaves them as they are. \<open>dump\<close> stands for
  \<^verbatim>\<open>yaml.safe_dump(data, allow_unicode=True, sort_keys=False)\<close>.
\<close>

definition yaml_path :: "int \<Rightarrow> string" where
  "yaml_path ch = ''ch_'' @ fmt_04d ch @ ''.yaml''"

definition write_memory_yaml ::
  "(pydict \<Rightarrow> string) \<Rightarrow> int \<Rightarrow> schema \<Rightarrow> turn \<Rightarrow> turn \<Rightarrow> (string \<rightharpoonup> string) \<Rightarrow>
   error + ((string \<rightharpoonup> string) \<times> string)" where
  "write_memory_yaml dump ch sch first_turn last_turn files =
     (let path = yaml_path ch in
      if files path = None then
        (case make_skeleton sch first_turn last_turn of
           Inl e \<Rightarrow> Inl e
         | Inr data \<Rightarrow> Inr (files(path \<mapsto> dump data), path))
      else Inr (files, path))"

section \<open>verify.py\<close>

text \<open>
  A violation is the message \<^verbatim>\<open>validate_field\<close> or \<^verbatim>\<open>validate_yaml_against_schema\<close> appends,
  with the values its format string prints.
\<close>

datatype violation =
    MissingKey yval
  | MustBeString yval
  | IsEmpty yval
  | ExceedsMaxChars yval yval nat
  | PatternMismatch yval yval
  | MustBeList yval
  | TooFewItems yval yval
  | TooManyItems yval yval
  | TooFewNonEmptyItems yval yval
  | MustBeDict yval
  | DictMissingKey yval yval
  | NoNonEmptyValues yval
  | UnsupportedType yval yval
  | ExtraKeys "yval list"
  | RootNotMapping
  | YamlParseError

text \<open>
  \<^verbatim>\<open>re.match(pattern, v)\<close> for a pattern that is a string: whether it matches, or \<open>None\<close> when the
  pattern does not compile. The library's matcher is a parameter of the validator.
\<close>

type_synonym re_match = "string \<Rightarrow> string \<Rightarrow> bool option"

text \<open>\<^verbatim>\<open>isinstance(x, str) and x.strip()\<close>\<close>

fun non_empty_str :: "yval \<Rightarrow> bool" where
  "non_empty_str (YStr s) = (strip s \<noteq> [])"
| "non_empty_str v = False"

text \<open>The loop over \<^verbatim>\<open>dict_keys\<close>: \<^verbatim>\<open>if k not in value and str(k) not in value\<close>.\<close>

fun dict_missing :: "yval \<Rightarrow> yval list \<Rightarrow> pydict \<Rightarrow> error + violation list" where
  "dict_missing name [] d = Inr []"
| "dict_missing name (k # ks) d =
     (case py_in k d of
        Inl e \<Rightarrow> Inl e
      | Inr present \<Rightarrow>
          (case dict_missing name ks d of
             Inl e \<Rightarrow> Inl e
           | Inr es \<Rightarrow>
               Inr ((if \<not> present \<and> dict_get d (YStr (py_str k)) = None
                     then [DictMissingKey name k] else []) @ es)))"

definition validate_field :: "re_match \<Rightarrow> yval \<Rightarrow> pydict \<Rightarrow> error + violation list" where
  "validate_field re value field =
     (let name = fget field ''name'';
          ftype = fget field ''type'';
          required = truthy (fget_default field ''required'' (YBool False))
      in
      if value = YNull then Inr (if required then [MissingKey name] else [])
      else if ftype = YStr ''string'' then
        (case value of
           YStr s \<Rightarrow>
             (let v = strip s;
                  e1 = (if truthy (fget field ''non_empty'') \<and> v = [] then [IsEmpty name] else []);
                  max_chars = fget field ''max_chars'';
                  e2 = (case as_int max_chars of
                          Some m \<Rightarrow> if int (length v) > m
                                    then [ExceedsMaxChars name max_chars (length v)] else []
                        | None \<Rightarrow> []);
                  pattern = fget field ''pattern''
              in if truthy pattern then
                   (case pattern of
                      YStr p \<Rightarrow>
                        (case re p v of
                           None \<Rightarrow> Inl ReError
                         | Some ok \<Rightarrow>
                             Inr (e1 @ e2 @ (if ok then [] else [PatternMismatch name pattern])))
                    | _ \<Rightarrow> Inl TypeError)
                 else Inr (e1 @ e2))
         | _ \<Rightarrow> Inr [MustBeString name])
      else if ftype = YStr ''list'' then
        (case value of
           YList xs \<Rightarrow>
             (let min_items = fget field ''min_items'';
                  max_items = fget field ''max_items'';
                  e1 = (case as_int min_items of
                          Some m \<Rightarrow> if int (length xs) < m then [TooFewItems name min_items] else []
                        | None \<Rightarrow> []);
                  e2 = (case as_int max_items of
                          Some m \<Rightarrow> if int (length xs) > m then [TooManyItems name max_items] else []
                        | None \<Rightarrow> []);
                  min_non_empty_items = fget field ''min_non_empty_items'';
                  e3 = (case as_int min_non_empty_items of
                          Some m \<Rightarrow> if int (length (filter non_empty_str xs)) < m
                                    then [TooFewNonEmptyItems name min_non_empty_items] else []
                        | None \<Rightarrow> [])
              in Inr (e1 @ e2 @ e3))
         | _ \<Rightarrow> Inr [MustBeList name])
      else if ftype = YStr ''dict'' then
        (case value of
           YDict d \<Rightarrow>
             (case py_iter (fget_default field ''dict_keys'' (YList [])) of
                Inl e \<Rightarrow> Inl e
              | Inr keys \<Rightarrow>
                  (case dict_missing name keys d of
                     Inl e \<Rightarrow> Inl e
                   | Inr e1 \<Rightarrow>
                       Inr (e1 @ (if truthy (fget field ''non_empty_any'') \<and>
                                     \<not> list_ex non_empty_str (map snd d)
                                  then [NoNonEmptyValues name] else []))))
         | _ \<Rightarrow> Inr [MustBeDict name])
      else Inr [UnsupportedType name ftype])"

text \<open>Lines 109 to 112: one field of the loop, \<^verbatim>\<open>validate_field(data.get(name), f)\<close>.\<close>

definition check_field :: "re_match \<Rightarrow> pydict \<Rightarrow> pydict \<Rightarrow> error + violation list" where
  "check_field re data f =
     (case py_get data (fget f ''name'') of
        Inl e \<Rightarrow> Inl e
      | Inr value \<Rightarrow> validate_field re value f)"

fun check_fields :: "re_match \<Rightarrow> pydict \<Rightarrow> pydict list \<Rightarrow> error + violation list" where
  "check_fields re data [] = Inr []"
| "check_fields re data (f # fs) =
     (case check_field re data f of
        Inl e \<Rightarrow> Inl e
      | Inr es \<Rightarrow>
          (case check_fields re data fs of Inl e \<Rightarrow> Inl e | Inr es' \<Rightarrow> Inr (es @ es')))"

text \<open>
  \<^verbatim>\<open>validate_yaml_against_schema\<close>. Its first argument is what reading and parsing the file
  gave: \<open>None\<close> when \<^verbatim>\<open>yaml.safe_load(path.read_text(...))\<close> raised.
\<close>

definition validate_yaml_against_schema ::
  "re_match \<Rightarrow> yval option \<Rightarrow> schema \<Rightarrow> error + violation list" where
  "validate_yaml_against_schema re loaded sch =
     (case loaded of
        None \<Rightarrow> Inr [YamlParseError]
      | Some (YDict data) \<Rightarrow>
          (let field_names = map (\<lambda>f. fget f ''name'') (schema_fields sch);
               extra_keys = filter (\<lambda>k. \<not> list_ex (key_eq k) field_names) (map fst data);
               errors = (if extra_keys \<noteq> [] then [ExtraKeys extra_keys] else [])
           in case check_fields re data (schema_fields sch) of
                Inl e \<Rightarrow> Inl e
              | Inr es \<Rightarrow> Inr (errors @ es))
      | Some _ \<Rightarrow> Inr [RootNotMapping])"

text \<open>
  What \<^verbatim>\<open>main\<close> of \<^verbatim>\<open>verify.py\<close> reads: whether the two directories exist, the decoded schema
  file if there is one, the stems of the files \<^verbatim>\<open>chunks/ch_*.txt\<close>, and the stems of the files
  \<^verbatim>\<open>output/chapters/ch_*.yaml\<close> with what loading each one gives.
\<close>

record verify_env =
  chunks_dir_exists :: bool
  out_dir_exists :: bool
  schema_file :: "schema option"
  chunk_stems :: "string list"
  yaml_docs :: "(string \<times> yval option) list"

text \<open>The loop that fills \<^verbatim>\<open>bad\<close>.\<close>

fun bad_yamls ::
  "re_match \<Rightarrow> schema \<Rightarrow> (string \<times> yval option) list \<Rightarrow> error + (string \<times> violation list) list" where
  "bad_yamls re sch [] = Inr []"
| "bad_yamls re sch ((y, doc) # ys) =
     (case validate_yaml_against_schema re doc sch of
        Inl e \<Rightarrow> Inl e
      | Inr errs \<Rightarrow>
          (case bad_yamls re sch ys of
             Inl e \<Rightarrow> Inl e
           | Inr bad \<Rightarrow> Inr ((if errs \<noteq> [] then [(y, errs)] else []) @ bad)))"

text \<open>
  \<^verbatim>\<open>main\<close>: the exit status it returns, or the exception that ends it. What it prints is not
  modelled; \<open>missing_yaml\<close> and \<open>extra_yaml\<close> are the two set differences, of which only the
  lengths are used.
\<close>

definition main :: "re_match \<Rightarrow> verify_env \<Rightarrow> error + int" where
  "main re env =
     (if \<not> chunks_dir_exists env then Inr 2
      else if \<not> out_dir_exists env then Inr 2
      else case schema_file env of
        None \<Rightarrow> Inr 2
      | Some sch \<Rightarrow>
          (let chunk_ids = remdups (chunk_stems env);
               yaml_ids = remdups (map fst (yaml_docs env));
               missing_yaml = filter (\<lambda>x. x \<notin> set yaml_ids) chunk_ids;
               extra_yaml = filter (\<lambda>x. x \<notin> set chunk_ids) yaml_ids
           in case bad_yamls re sch (yaml_docs env) of
                Inl e \<Rightarrow> Inl e
              | Inr bad \<Rightarrow>
                  (let problems = int (length missing_yaml) + int (length bad)
                   in Inr (if problems \<noteq> 0 then 1 else 0))))"

section \<open>Schemas the round trip is stated for\<close>

text \<open>
  The value a key is hashed and compared by: \<^verbatim>\<open>True\<close> and \<^verbatim>\<open>1\<close> are the same key. The names of
  the fields of a schema are distinct when no two of them are equal as keys.
\<close>

fun canon :: "yval \<Rightarrow> yval" where
  "canon (YBool b) = YInt (if b then 1 else 0)"
| "canon v = v"

definition distinct_names :: "pydict list \<Rightarrow> bool" where
  "distinct_names fs = distinct (map (\<lambda>f. canon (fget f ''name'')) fs)"

text \<open>
  A field whose empty default passes its own checks: its type is string, list or dict and it
  declares no content constraint that the default fails. \<open>no_rule\<close>: the derived mapping binds
  no rule to the field's name.
\<close>

definition plain_field :: "pydict \<Rightarrow> bool" where
  "plain_field f =
     ((fget f ''type'' = YStr ''string'' \<or> fget f ''type'' = YStr ''list'' \<or>
       fget f ''type'' = YStr ''dict'') \<and>
      \<not> truthy (fget f ''non_empty'') \<and>
      \<not> truthy (fget f ''pattern'') \<and>
      (case as_int (fget f ''max_chars'') of Some m \<Rightarrow> 0 \<le> m | None \<Rightarrow> True) \<and>
      (case as_int (fget f ''min_items'') of Some m \<Rightarrow> m \<le> 0 | None \<Rightarrow> True) \<and>
      (case as_int (fget f ''max_items'') of Some m \<Rightarrow> 0 \<le> m | None \<Rightarrow> True) \<and>
      (case as_int (fget f ''min_non_empty_items'') of Some m \<Rightarrow> m \<le> 0 | None \<Rightarrow> True) \<and>
      \<not> truthy (fget f ''non_empty_any''))"

definition no_rule :: "pydict \<Rightarrow> pydict \<Rightarrow> bool" where
  "no_rule drv f =
     (case dict_get drv (fget f ''name'') of None \<Rightarrow> True | Some fn \<Rightarrow> \<not> truthy fn)"

text \<open>
  What the validator is to report for a generated record: for each field in schema order, the
  result of \<^verbatim>\<open>validate_field\<close> on the value generated for that field. \<open>structural\<close> marks the
  violations that are not about a field: a document that does not parse, a root that is no
  mapping, extra keys.
\<close>

fun generated_checks ::
  "re_match \<Rightarrow> pydict list \<Rightarrow> turn \<Rightarrow> turn \<Rightarrow> pydict \<Rightarrow> error + violation list" where
  "generated_checks re [] first_turn last_turn drv = Inr []"
| "generated_checks re (f # fs) first_turn last_turn drv =
     (case field_value f (fget f ''name'') first_turn last_turn drv of
        Inl e \<Rightarrow> Inl e
      | Inr v \<Rightarrow>
          (case validate_field re v f of
             Inl e \<Rightarrow> Inl e
           | Inr es \<Rightarrow>
               (case generated_checks re fs first_turn last_turn drv of
                  Inl e \<Rightarrow> Inl e
                | Inr es' \<Rightarrow> Inr (es @ es'))))"

fun structural :: "violation \<Rightarrow> bool" where
  "structural (ExtraKeys ks) = True"
| "structural RootNotMapping = True"
| "structural YamlParseError = True"
| "structural v = False"

section \<open>Properties of chunk_indices\<close>

lemma chunk_loop_terminates:
  assumes "0 \<le> overlap" "overlap < chunk_size"
  shows "\<exists>rs. chunk_loop total_turns chunk_size overlap start ch ranges = Some rs"
proof (induction "nat (total_turns - start)" arbitrary: start ch ranges rule: less_induct)
  case less
  show ?case
  proof (cases "start < total_turns")
    case False
    then show ?thesis by (subst chunk_loop.simps) simp
  next
    case True
    show ?thesis
    proof (cases "min (start + chunk_size) total_turns = total_turns")
      case True
      with \<open>start < total_turns\<close> show ?thesis by (subst chunk_loop.simps) (simp add: Let_def)
    next
      case False
      let ?s = "max (min (start + chunk_size) total_turns - overlap) 0"
      have "nat (total_turns - ?s) < nat (total_turns - start)" using False True assms by auto
      from less[OF this] obtain rs where
        "chunk_loop total_turns chunk_size overlap ?s (ch + 1)
           (ranges @ [\<lparr>ch_id = ch, start_i = start, end_i = min (start + chunk_size) total_turns\<rparr>]) = Some rs"
        by blast
      with True False show ?thesis by (subst chunk_loop.simps) (simp add: Let_def)
    qed
  qed
qed

lemma chunk_loop_unfold_stop:
  "\<not> start < total_turns \<Longrightarrow> chunk_loop total_turns chunk_size overlap start ch ranges = Some ranges"
  by (subst chunk_loop.simps) simp

lemma chunk_loop_unfold_last:
  "start < total_turns \<Longrightarrow> total_turns \<le> start + chunk_size \<Longrightarrow>
   chunk_loop total_turns chunk_size overlap start ch ranges =
     Some (ranges @ [\<lparr>ch_id = ch, start_i = start, end_i = total_turns\<rparr>])"
  by (subst chunk_loop.simps) (simp add: Let_def min_def)

lemma chunk_loop_unfold_step:
  "start < total_turns \<Longrightarrow> start + chunk_size < total_turns \<Longrightarrow>
   chunk_loop total_turns chunk_size overlap start ch ranges =
     chunk_loop total_turns chunk_size overlap (max (start + chunk_size - overlap) 0) (ch + 1)
       (ranges @ [\<lparr>ch_id = ch, start_i = start, end_i = start + chunk_size\<rparr>])"
  by (subst chunk_loop.simps) (simp add: Let_def min_def)

lemma chunk_loop_last_end:
  assumes "0 \<le> overlap" "overlap < chunk_size"
  shows "0 \<le> start \<Longrightarrow> start < total_turns \<Longrightarrow>
         chunk_loop total_turns chunk_size overlap start ch ranges = Some rs \<Longrightarrow>
         rs \<noteq> [] \<and> end_i (last rs) = total_turns"
proof (induction "nat (total_turns - start)" arbitrary: start ch ranges rule: less_induct)
  case less
  show ?case
  proof (cases "total_turns \<le> start + chunk_size")
    case True
    with less.prems show ?thesis by (auto simp: chunk_loop_unfold_last)
  next
    case False
    let ?s = "max (start + chunk_size - overlap) 0"
    have lt: "?s < total_turns" "0 \<le> ?s" using False less.prems(1,2) assms by auto
    have dec: "nat (total_turns - ?s) < nat (total_turns - start)" using False less.prems(1,2) assms by auto
    from less.prems False have
      "chunk_loop total_turns chunk_size overlap ?s (ch + 1)
         (ranges @ [\<lparr>ch_id = ch, start_i = start, end_i = start + chunk_size\<rparr>]) = Some rs"
      by (simp add: chunk_loop_unfold_step)
    from less.hyps[OF dec lt(2) lt(1) this] show ?thesis .
  qed
qed

lemma chunk_loop_tiles:
  assumes "0 < chunk_size"
  shows "chunk_loop total_turns chunk_size 0 start ch ranges = Some rs \<Longrightarrow> 0 \<le> start \<Longrightarrow>
         \<exists>new. rs = ranges @ new \<and> concat (map range_turns new) = [start .. total_turns - 1]
             \<and> (\<forall>r \<in> set new. start_i r < end_i r \<and> end_i r \<le> total_turns)"
proof (induction "nat (total_turns - start)" arbitrary: start ch ranges rule: less_induct)
  case less
  show ?case
  proof (cases "start < total_turns")
    case False
    with less.prems show ?thesis by (simp add: chunk_loop_unfold_stop)
  next
    case lt: True
    show ?thesis
    proof (cases "total_turns \<le> start + chunk_size")
      case True
      with less.prems lt show ?thesis by (auto simp: chunk_loop_unfold_last range_turns_def)
    next
      case False
      let ?r = "\<lparr>ch_id = ch, start_i = start, end_i = start + chunk_size\<rparr>"
      let ?s = "start + chunk_size"
      have dec: "nat (total_turns - ?s) < nat (total_turns - start)" using False lt assms by auto
      from less.prems False lt assms have
        "chunk_loop total_turns chunk_size 0 ?s (ch + 1) (ranges @ [?r]) = Some rs"
        by (simp add: chunk_loop_unfold_step max_def)
      from less.hyps[OF dec this] less.prems(2) assms obtain new where
        new: "rs = (ranges @ [?r]) @ new" "concat (map range_turns new) = [?s .. total_turns - 1]"
          "\<forall>r \<in> set new. start_i r < end_i r \<and> end_i r \<le> total_turns"
        by auto
      have "[start .. total_turns - 1] = [start .. ?s - 1] @ [?s .. total_turns - 1]"
        using False assms by (intro upto_split1) auto
      with new False assms show ?thesis
        by (intro exI[of _ "?r # new"]) (simp add: range_turns_def)
    qed
  qed
qed

lemma count_upto: "length (filter (\<lambda>j. j = i) [a .. b]) = (if a \<le> i \<and> i \<le> b then 1 else 0)"
proof (induction a b rule: upto.induct)
  case (1 a b)
  show ?case
  proof (cases "a \<le> b")
    case True
    with 1 show ?thesis by (subst upto.simps) auto
  next
    case False
    then show ?thesis by simp
  qed
qed

lemma covers_count:
  "length (filter (\<lambda>r. covers r i) rs) = length (filter (\<lambda>j. j = i) (concat (map range_turns rs)))"
  by (induction rs) (auto simp: covers_def range_turns_def count_upto)


text \<open>
  C10. \<^verbatim>\<open>chunk_indices\<close> terminates for every \<open>total_turns\<close>, every \<open>chunk_size > 0\<close> and every
  \<open>overlap\<close> with \<open>0 \<le> overlap < chunk_size\<close>: the loop returns a list of ranges. Each round of
  the loop either stops, because the end of its range is \<open>total_turns\<close>, or goes on with a start
  that is strictly greater.
\<close>

theorem chunk_indices_terminates:
  assumes "0 < chunk_size" and "0 \<le> overlap" and "overlap < chunk_size"
  shows "(\<exists>rs. chunk_indices total_turns chunk_size overlap = Some (Inr rs)) \<and>
         (\<forall>start. start < total_turns \<longrightarrow>
            min (start + chunk_size) total_turns = total_turns \<or>
            start < max (min (start + chunk_size) total_turns - overlap) 0)"
proof
  from chunk_loop_terminates[OF assms(2,3)] obtain rs where
    "chunk_loop total_turns chunk_size overlap 0 1 [] = Some rs" by blast
  with assms show "\<exists>rs. chunk_indices total_turns chunk_size overlap = Some (Inr rs)"
    by (simp add: chunk_indices_def)
next
  show "\<forall>start. start < total_turns \<longrightarrow>
            min (start + chunk_size) total_turns = total_turns \<or>
            start < max (min (start + chunk_size) total_turns - overlap) 0"
    using assms by auto
qed

theorem chunk_indices_terminates_witness:
  "(0::int) < 10 \<and> (0::int) \<le> 3 \<and> (3::int) < 10 \<and>
   (\<exists>rs. chunk_indices 25 10 3 = Some (Inr rs)) \<and>
   (min (7 + 10) 25 = (25::int) \<or> (7::int) < max (min (7 + 10) 25 - 3) 0)"
  using chunk_indices_terminates[of 10 3 25] by simp

text \<open>
  C3, as the code has it. For every \<open>total_turns > 0\<close>, every \<open>chunk_size > 0\<close> and every
  \<open>overlap\<close> with \<open>0 \<le> overlap < chunk_size\<close>, \<^verbatim>\<open>chunk_indices\<close> returns a non-empty list whose
  last range ends at \<open>total_turns\<close>; for \<open>total_turns = 0\<close> it returns the empty list, which has
  no last range.
\<close>

theorem chunk_indices_last_end:
  assumes "0 \<le> total_turns" and "0 < chunk_size" and "0 \<le> overlap" and "overlap < chunk_size"
  shows "\<exists>rs. chunk_indices total_turns chunk_size overlap = Some (Inr rs) \<and>
              (if total_turns = 0 then rs = [] else rs \<noteq> [] \<and> end_i (last rs) = total_turns)"
proof (cases "total_turns = 0")
  case True
  with assms show ?thesis by (simp add: chunk_indices_def chunk_loop_unfold_stop)
next
  case False
  with assms have pos: "0 < total_turns" by simp
  from chunk_loop_terminates[OF assms(3,4)] obtain rs where
    rs: "chunk_loop total_turns chunk_size overlap 0 1 [] = Some rs" by blast
  from chunk_loop_last_end[OF assms(3,4) _ pos rs] have "rs \<noteq> [] \<and> end_i (last rs) = total_turns"
    by simp
  with rs assms False show ?thesis by (simp add: chunk_indices_def)
qed

theorem chunk_indices_last_end_witness:
  "(0::int) \<le> 25 \<and> (0::int) < 10 \<and> (0::int) \<le> 3 \<and> (3::int) < 10 \<and>
   (\<exists>rs. chunk_indices 25 10 3 = Some (Inr rs) \<and> rs \<noteq> [] \<and> end_i (last rs) = 25)"
  using chunk_indices_last_end[of 25 10 3] by simp

theorem chunk_indices_last_end_counterexample:
  "\<not> (\<exists>rs. chunk_indices 0 1 0 = Some (Inr rs) \<and> rs \<noteq> [] \<and> end_i (last rs) = 0)"
  by (simp add: chunk_indices_def chunk_loop_unfold_stop)

text \<open>
  C6. For every \<open>total_turns\<close> and every \<open>chunk_size > 0\<close>, the ranges that \<^verbatim>\<open>chunk_indices\<close>
  returns with \<open>overlap = 0\<close> tile \<open>[0, total_turns)\<close>: read one after the other they list the
  indices \<open>0, 1, ..., total_turns - 1\<close> in order, so there is no gap and no repeat; every index
  of \<open>[0, total_turns)\<close> lies in exactly one range; every range is non-empty and ends at or
  before \<open>total_turns\<close>.
\<close>

theorem chunk_indices_tiles:
  assumes "0 < chunk_size"
  shows "\<exists>rs. chunk_indices total_turns chunk_size 0 = Some (Inr rs) \<and>
              concat (map range_turns rs) = [0 .. total_turns - 1] \<and>
              (\<forall>i. 0 \<le> i \<and> i < total_turns \<longrightarrow> length (filter (\<lambda>r. covers r i) rs) = 1) \<and>
              (\<forall>r \<in> set rs. start_i r < end_i r \<and> end_i r \<le> total_turns)"
proof -
  from chunk_loop_terminates[of 0 chunk_size] assms obtain rs where
    rs: "chunk_loop total_turns chunk_size 0 0 1 [] = Some rs" by force
  from chunk_loop_tiles[OF assms rs] have
    tiles: "concat (map range_turns rs) = [0 .. total_turns - 1]"
    and ne: "\<forall>r \<in> set rs. start_i r < end_i r \<and> end_i r \<le> total_turns"
    by auto
  have "\<forall>i. 0 \<le> i \<and> i < total_turns \<longrightarrow> length (filter (\<lambda>r. covers r i) rs) = 1"
    by (simp add: covers_count tiles count_upto)
  with rs tiles ne assms show ?thesis by (simp add: chunk_indices_def)
qed

theorem chunk_indices_tiles_witness:
  "(0::int) < 10 \<and>
   (\<exists>rs. chunk_indices 25 10 0 = Some (Inr rs) \<and> concat (map range_turns rs) = [0 .. 25 - 1] \<and>
         length (filter (\<lambda>r. covers r 7) rs) = 1)"
proof -
  have h: "(0::int) < 10" by simp
  from chunk_indices_tiles[OF h, of 25] obtain rs where
    "chunk_indices 25 10 0 = Some (Inr rs)" "concat (map range_turns rs) = [0 .. 25 - 1]"
    "\<forall>i. 0 \<le> i \<and> i < 25 \<longrightarrow> length (filter (\<lambda>r. covers r i) rs) = 1"
    by blast
  then show ?thesis by auto
qed

section \<open>Properties of parse_turns\<close>

lemma close_turn_inv:
  "parse_inv st n \<Longrightarrow> parse_inv ((close_turn st)\<lparr>current := None\<rparr>) n"
  by (auto simp: parse_inv_def close_turn_def split: option.splits)

lemma close_turn_turns:
  "turns ((close_turn st)\<lparr>current := c\<rparr>) = turns (close_turn st)"
  "p_idx ((close_turn st)\<lparr>current := c\<rparr>) = p_idx (close_turn st)"
  by simp_all

lemma parse_line_inv:
  "parse_inv st n \<Longrightarrow> parse_inv (parse_line st line) (if is_marker line then Suc n else n)"
proof (cases "msg_start_match line")
  case None
  then show "parse_inv st n \<Longrightarrow> ?thesis"
    by (auto simp: parse_inv_def parse_line_def is_marker_def split: option.splits)
next
  case (Some g)
  assume "parse_inv st n"
  from close_turn_inv[OF this] have "parse_inv ((close_turn st)\<lparr>current := None\<rparr>) n" .
  with Some show ?thesis
    by (cases g) (auto simp: parse_inv_def parse_line_def is_marker_def)
qed

lemma foldl_parse_line_inv:
  "parse_inv st n \<Longrightarrow> parse_inv (foldl parse_line st ls) (n + length (filter is_marker ls))"
proof (induction ls arbitrary: st n)
  case Nil
  then show ?case by simp
next
  case (Cons l ls)
  from parse_line_inv[OF Cons.prems, of l]
  have "parse_inv (parse_line st l) (if is_marker l then Suc n else n)" .
  from Cons.IH[OF this] show ?case by (simp split: if_splits)
qed

lemmas match_eval =
  msg_start_match_def two_digits_def is_digit_def is_space_def any_char_def at_end_def taken_def

text \<open>
  C5. For every transcript text with exactly \<open>N\<close> lines that match the turn-start marker,
  \<^verbatim>\<open>parse_turns\<close> returns exactly \<open>N\<close> turns, and their \<open>idx\<close> fields are \<open>1, 2, ..., N\<close> in
  that order.
\<close>

theorem parse_turns_count_and_indices:
  assumes "length (filter is_marker (splitlines text)) = N"
  shows "length (parse_turns text) = N \<and> map idx (parse_turns text) = map int [1 ..< Suc N]"
proof -
  let ?st = "foldl parse_line \<lparr>turns = [], current = None, p_idx = 0\<rparr> (splitlines text)"
  have "parse_inv \<lparr>turns = [], current = None, p_idx = 0\<rparr> 0" by (simp add: parse_inv_def)
  from foldl_parse_line_inv[OF this, of "splitlines text"] assms have "parse_inv ?st N" by simp
  from close_turn_inv[OF this] have "parse_inv ((close_turn ?st)\<lparr>current := None\<rparr>) N" .
  then have "length (turns (close_turn ?st)) = N \<and>
             map idx (turns (close_turn ?st)) = map int [1 ..< Suc N]"
    by (auto simp: parse_inv_def)
  then show ?thesis by (simp add: parse_turns_def)
qed

theorem parse_turns_count_and_indices_witness:
  "length (filter is_marker (splitlines
      (''junk'' @ [CHR 0x0A] @ ''[2024-01-01 00:00:00] A: hi'' @ [CHR 0x0A] @ ''more'' @
       [CHR 0x0A] @ ''[2024-01-01 00:00:05] B:''))) = 2 \<and>
   length (parse_turns
      (''junk'' @ [CHR 0x0A] @ ''[2024-01-01 00:00:00] A: hi'' @ [CHR 0x0A] @ ''more'' @
       [CHR 0x0A] @ ''[2024-01-01 00:00:05] B:'')) = 2 \<and>
   map idx (parse_turns
      (''junk'' @ [CHR 0x0A] @ ''[2024-01-01 00:00:00] A: hi'' @ [CHR 0x0A] @ ''more'' @
       [CHR 0x0A] @ ''[2024-01-01 00:00:05] B:'')) = [1, 2]"
proof -
  let ?T = "''junk'' @ [CHR 0x0A] @ ''[2024-01-01 00:00:00] A: hi'' @ [CHR 0x0A] @ ''more'' @
       [CHR 0x0A] @ ''[2024-01-01 00:00:05] B:''"
  have ls: "splitlines ?T =
      [''junk'', ''[2024-01-01 00:00:00] A: hi'', ''more'', ''[2024-01-01 00:00:05] B:'']"
    by (simp add: splitlines_def is_linebreak_def)
  have h: "length (filter is_marker (splitlines ?T)) = 2"
    unfolding ls by (simp add: is_marker_def match_eval)
  have "map int [1 ..< Suc 2] = [1, 2]" by (simp add: upt_rec)
  with parse_turns_count_and_indices[OF h] h show ?thesis by simp
qed

subsection \<open>The pattern and the shape of a marker line\<close>

lemma litE:
  assumes "lit c k s = Some r"
  obtains s' where "s = c # s'" "k s' = Some r"
  using assms by (cases s) (auto split: if_splits)

lemma clsE:
  assumes "cls p k s = Some r"
  obtains x s' where "s = x # s'" "p x" "k s' = Some r"
  using assms by (cases s) (auto split: if_splits)

lemma star_Some:
  "star p k s = Some r \<Longrightarrow> \<exists>u v. s = u @ v \<and> list_all p u \<and> k v = Some r"
proof (induction s)
  case Nil
  then show ?case by simp
next
  case (Cons x xs)
  show ?case
  proof (cases "p x \<and> star p k xs \<noteq> None")
    case True
    with Cons.prems have "star p k xs = Some r" by auto
    from Cons.IH[OF this] obtain u v where "xs = u @ v" "list_all p u" "k v = Some r" by blast
    with True show ?thesis by (intro exI[of _ "x # u"] exI[of _ v]) simp
  next
    case False
    with Cons.prems have "k (x # xs) = Some r" by (auto split: if_splits option.splits)
    then show ?thesis by (intro exI[of _ "[]"] exI[of _ "x # xs"]) simp
  qed
qed

lemma lazy_star_Some:
  "lazy_star p k s = Some r \<Longrightarrow> \<exists>u v. s = u @ v \<and> list_all p u \<and> k v = Some r"
proof (induction s)
  case Nil
  then show ?case by simp
next
  case (Cons x xs)
  show ?case
  proof (cases "k (x # xs)")
    case (Some r')
    with Cons.prems show ?thesis by (intro exI[of _ "[]"] exI[of _ "x # xs"]) simp
  next
    case None
    with Cons.prems have px: "p x" and "lazy_star p k xs = Some r" by (auto split: if_splits)
    from Cons.IH[OF this(2)] obtain u v where "xs = u @ v" "list_all p u" "k v = Some r" by blast
    with px show ?thesis by (intro exI[of _ "x # u"] exI[of _ v]) simp
  qed
qed

lemma star_matches:
  "list_all p u \<Longrightarrow> k v \<noteq> None \<Longrightarrow> star p k (u @ v) \<noteq> None"
proof (induction u)
  case Nil
  then show ?case by (cases v) (auto split: option.splits)
next
  case (Cons x u)
  then show ?case by (auto split: option.splits)
qed

lemma lazy_star_matches:
  "list_all p u \<Longrightarrow> k v \<noteq> None \<Longrightarrow> lazy_star p k (u @ v) \<noteq> None"
proof (induction u)
  case Nil
  then show ?case by (cases v) (auto split: option.splits)
next
  case (Cons x u)
  then show ?case by (auto split: option.splits)
qed

lemma starE:
  assumes "star p k s = Some r"
  obtains u v where "s = u @ v" "list_all p u" "k v = Some r"
  using star_Some[OF assms] by blast

lemma lazy_starE:
  assumes "lazy_star p k s = Some r"
  obtains u v where "s = u @ v" "list_all p u" "k v = Some r"
  using lazy_star_Some[OF assms] by blast

lemma match_has_shape:
  assumes "msg_start_match line = Some g"
  shows "turn_start_shape line"
proof -
  from assms obtain y1 y2 m1 m2 d1 d2 x u h1 h2 n1 n2 s1 s2 ws y sp ws' rest s6 where
    line: "line = CHR ''['' # CHR ''2'' # CHR ''0'' # y1 # y2 # CHR ''-'' # m1 # m2 # CHR ''-'' # d1 # d2 #
             x # u @ h1 # h2 # CHR '':'' # n1 # n2 # CHR '':'' # s1 # s2 # CHR '']'' #
             ws @ y # sp @ CHR '':'' # ws' @ rest @ s6"
    and digs: "is_digit y1" "is_digit y2" "is_digit m1" "is_digit m2" "is_digit d1" "is_digit d2"
      "is_digit h1" "is_digit h2" "is_digit n1" "is_digit n2" "is_digit s1" "is_digit s2"
    and sp: "is_space x" "list_all is_space u" "list_all is_space ws" "list_all is_space ws'"
    unfolding msg_start_match_def two_digits_def
    by (elim litE clsE starE lazy_starE) (simp split: if_splits)
  show ?thesis
    unfolding turn_start_shape_def marker_shape_def
    apply (rule exI[of _ "[CHR ''2'', CHR ''0'', y1, y2, CHR ''-'', m1, m2, CHR ''-'', d1, d2]"])
    apply (rule exI[of _ "x # u"])
    apply (rule exI[of _ "[h1, h2, CHR '':'', n1, n2, CHR '':'', s1, s2]"])
    apply (rule exI[of _ ws])
    apply (rule exI[of _ "y # sp"])
    apply (rule exI[of _ ws'])
    apply (rule exI[of _ "rest @ s6"])
    using line digs sp by (simp add: date_shape_def time_shape_def)
qed

lemma star_matches_all:
  "list_all p u \<Longrightarrow> k [] \<noteq> None \<Longrightarrow> star p k u \<noteq> None"
  using star_matches[of p u k "[]"] by simp

lemma shape_matches:
  assumes "turn_start_shape line" and "CHR 0x0A \<notin> set line"
  shows "msg_start_match line \<noteq> None"
proof -
  from assms(1) obtain d w t ws sp ws' rest where
    line: "line = ''['' @ d @ w @ t @ '']'' @ ws @ sp @ '':'' @ ws' @ rest"
    and d: "date_shape d" and w: "w \<noteq> []" "list_all is_space w" and t: "time_shape t"
    and ws: "list_all is_space ws" "list_all is_space ws'" and sp: "sp \<noteq> []"
    unfolding turn_start_shape_def marker_shape_def by blast
  from d obtain y1 y2 m1 m2 d1 d2 where
    d_eq: "d = [CHR ''2'', CHR ''0'', y1, y2, CHR ''-'', m1, m2, CHR ''-'', d1, d2]"
    and dd: "is_digit y1" "is_digit y2" "is_digit m1" "is_digit m2" "is_digit d1" "is_digit d2"
    by (auto simp: date_shape_def split: list.splits)
  from t obtain h1 h2 n1 n2 s1 s2 where
    t_eq: "t = [h1, h2, CHR '':'', n1, n2, CHR '':'', s1, s2]"
    and td: "is_digit h1" "is_digit h2" "is_digit n1" "is_digit n2" "is_digit s1" "is_digit s2"
    by (auto simp: time_shape_def split: list.splits)
  from w obtain x u where w_eq: "w = x # u" and xu: "is_space x" "list_all is_space u"
    by (cases w) auto
  from sp obtain y sp' where sp_eq: "sp = y # sp'" by (cases sp) auto
  from assms(2) line sp_eq have nl: "any_char y" "list_all any_char sp'" "list_all any_char rest"
    by (auto simp: any_char_def list_all_iff)
  show ?thesis
    unfolding msg_start_match_def two_digits_def line d_eq t_eq w_eq sp_eq
    apply (simp add: dd td xu nl del: not_None_eq)
    apply (rule star_matches[OF xu(2)])
    apply (simp add: td del: not_None_eq)
    apply (rule star_matches[OF ws(1)])
    apply (simp add: nl del: not_None_eq)
    apply (rule lazy_star_matches[OF nl(2)])
    apply (simp del: not_None_eq)
    apply (rule star_matches[OF ws(2)])
    apply (rule star_matches_all[OF nl(3)])
    apply (simp add: at_end_def)
    done
qed

lemma splitlines_from_no_break:
  "list_all (\<lambda>c. \<not> is_linebreak c) cur \<Longrightarrow> l \<in> set (splitlines_from cur s) \<Longrightarrow>
   list_all (\<lambda>c. \<not> is_linebreak c) l"
  by (induction cur s rule: splitlines_from.induct) (auto split: if_splits)

lemma splitlines_no_newline:
  assumes "l \<in> set (splitlines text)"
  shows "CHR 0x0A \<notin> set l"
proof -
  from splitlines_from_no_break[of "[]" l "text"] assms
  have "list_all (\<lambda>c. \<not> is_linebreak c) l" by (simp add: splitlines_def)
  then show ?thesis by (auto simp: list_all_iff is_linebreak_def)
qed

text \<open>
  C4, as the code has it. A line of the transcript opens a new turn if and only if it has the
  shape of the marker with one or more whitespace characters between the date and the time:
  \<^verbatim>\<open>[\<close>, a date \<^verbatim>\<open>YYYY-MM-DD\<close> whose year begins with 20, one or more whitespace characters, a
  time \<^verbatim>\<open>HH:MM:SS\<close>, \<^verbatim>\<open>]\<close>, optional whitespace, a speaker of one or more characters followed by
  \<^verbatim>\<open>:\<close>, optional whitespace, then the rest of the line. A line with two spaces between the
  date and the time opens a turn, which the shape with exactly one space excludes.
\<close>

theorem turn_start_iff_shape:
  assumes "line \<in> set (splitlines text)"
  shows "is_marker line = turn_start_shape line"
  using match_has_shape[of line] shape_matches[OF _ splitlines_no_newline[OF assms]]
  by (auto simp: is_marker_def)

theorem turn_start_iff_shape_witness:
  "''[2024-01-01 09:15:00] Ann: hello'' \<in> set (splitlines (''[2024-01-01 09:15:00] Ann: hello'' @ [CHR 0x0A] @ ''bye'')) \<and>
   is_marker ''[2024-01-01 09:15:00] Ann: hello'' \<and>
   turn_start_shape ''[2024-01-01 09:15:00] Ann: hello''"
proof -
  have mem: "''[2024-01-01 09:15:00] Ann: hello'' \<in> set (splitlines (''[2024-01-01 09:15:00] Ann: hello'' @ [CHR 0x0A] @ ''bye''))"
    by (simp add: splitlines_def is_linebreak_def)
  have m: "is_marker ''[2024-01-01 09:15:00] Ann: hello''"
    by (simp add: is_marker_def match_eval)
  from turn_start_iff_shape[OF mem] m mem show ?thesis by simp
qed

theorem two_spaces_counterexample:
  "is_marker ''[2024-01-01  09:15:00] Ann: hello'' \<and>
   \<not> spec_turn_start ''[2024-01-01  09:15:00] Ann: hello''"
proof
  show "is_marker ''[2024-01-01  09:15:00] Ann: hello''"
    by (simp add: is_marker_def match_eval)
next
  show "\<not> spec_turn_start ''[2024-01-01  09:15:00] Ann: hello''"
  proof
    assume "spec_turn_start ''[2024-01-01  09:15:00] Ann: hello''"
    then obtain d t r where
      eq: "''[2024-01-01  09:15:00] Ann: hello'' = ''['' @ d @ '' '' @ t @ r"
      and "date_shape d" "time_shape t"
      unfolding spec_turn_start_def marker_shape_def by auto
    then show False
      by (auto simp: date_shape_def time_shape_def is_digit_def split: list.splits)
  qed
qed


section \<open>Properties of the skeleton generator\<close>

lemma key_eq_hashable: "key_eq k x \<Longrightarrow> hashable k"
  by (cases k; cases x) (auto simp: key_eq_def)

lemma dict_get_hashable: "dict_get d k = Some v \<Longrightarrow> hashable k"
  by (induction d) (auto split: if_splits dest: key_eq_hashable)





text \<open>
  C8. When the record file of a chunk identifier exists, \<^verbatim>\<open>write_memory_yaml\<close> returns with every
  file as it was, so the bytes of the existing record are unchanged, and no skeleton is
  computed. Whenever it returns, every file that existed keeps its content: a skeleton is
  written only under a name that had no file.
\<close>

theorem write_once_if_absent:
  "(files (yaml_path ch) = Some bytes \<longrightarrow>
      write_memory_yaml dump ch sch first_turn last_turn files = Inr (files, yaml_path ch)) \<and>
   (write_memory_yaml dump ch sch first_turn last_turn files = Inr (files', p) \<longrightarrow>
      files q = Some b \<longrightarrow> files' q = Some b) \<and>
   (write_memory_yaml dump ch sch first_turn last_turn files = Inr (files', p) \<longrightarrow>
      files' \<noteq> files \<longrightarrow> files (yaml_path ch) = None)"
  by (auto simp: write_memory_yaml_def Let_def split: sum.splits if_splits)

theorem write_once_if_absent_witness:
  "[''ch_0003.yaml'' \<mapsto> ''summary: edited by hand''] (yaml_path 3) = Some ''summary: edited by hand'' \<and>
   write_memory_yaml (\<lambda>d. ''fresh'') 3 \<lparr>schema_fields = [], schema_derived = []\<rparr>
     \<lparr>idx = 1, timestamp = ''2024-01-01 09:15:00'', speaker = ''A'', content = ''hi''\<rparr>
     \<lparr>idx = 2, timestamp = ''2024-01-01 09:20:00'', speaker = ''B'', content = ''yo''\<rparr>
     [''ch_0003.yaml'' \<mapsto> ''summary: edited by hand'']
   = Inr ([''ch_0003.yaml'' \<mapsto> ''summary: edited by hand''], ''ch_0003.yaml'')"
proof -
  have p: "yaml_path 3 = ''ch_0003.yaml''" by code_simp
  have h: "[''ch_0003.yaml'' \<mapsto> ''summary: edited by hand''] (yaml_path 3) = Some ''summary: edited by hand''"
    by (simp add: p)
  from write_once_if_absent[of "[''ch_0003.yaml'' \<mapsto> ''summary: edited by hand'']" 3
      "''summary: edited by hand''" "\<lambda>d. ''fresh''"] h p
  show ?thesis by simp
qed

section \<open>Properties of the validator\<close>

text \<open>
  C9. A field whose stored value is null is validated like an absent field: whatever type or
  content constraints the field declares, the result is the one "missing key" violation when
  the field is required and no violation when it is not, and it is the result for every
  record that has no such key.
\<close>

theorem null_value_like_absent:
  assumes "dict_get data (fget field ''name'') = Some YNull"
  shows "check_field re data field =
           Inr (if truthy (fget_default field ''required'' (YBool False))
                then [MissingKey (fget field ''name'')] else []) \<and>
         (dict_get data' (fget field ''name'') = None \<longrightarrow>
            check_field re data' field = check_field re data field)"
proof -
  from assms have "hashable (fget field ''name'')" by (rule dict_get_hashable)
  with assms show ?thesis
    by (simp add: check_field_def py_get_def validate_field_def Let_def)
qed

theorem null_value_like_absent_witness:
  "dict_get [(YStr ''tags'', YNull)] (fget [(YStr ''name'', YStr ''tags''), (YStr ''type'', YStr ''list''),
       (YStr ''required'', YBool True), (YStr ''min_items'', YInt 2)] ''name'') = Some YNull \<and>
   check_field (\<lambda>p s. Some True) [(YStr ''tags'', YNull)]
      [(YStr ''name'', YStr ''tags''), (YStr ''type'', YStr ''list''),
       (YStr ''required'', YBool True), (YStr ''min_items'', YInt 2)] = Inr [MissingKey (YStr ''tags'')] \<and>
   check_field (\<lambda>p s. Some True) []
      [(YStr ''name'', YStr ''tags''), (YStr ''type'', YStr ''list''),
       (YStr ''required'', YBool True), (YStr ''min_items'', YInt 2)] = Inr [MissingKey (YStr ''tags'')]"
proof -
  let ?f = "[(YStr ''name'', YStr ''tags''), (YStr ''type'', YStr ''list''),
       (YStr ''required'', YBool True), (YStr ''min_items'', YInt 2)]"
  have n: "fget ?f ''name'' = YStr ''tags''" by (simp add: fget_def fget_default_def key_eq_def)
  have r: "fget_default ?f ''required'' (YBool False) = YBool True"
    by (simp add: fget_default_def key_eq_def)
  have h: "dict_get [(YStr ''tags'', YNull)] (fget ?f ''name'') = Some YNull"
    by (simp add: n key_eq_def)
  from null_value_like_absent[OF h, of "\<lambda>p s. Some True" "[]"] h show ?thesis
    by (simp add: n r)
qed

lemma bad_yamls_nonempty:
  "bad_yamls re sch ys = Inr bad \<Longrightarrow>
   (bad \<noteq> []) = list_ex (\<lambda>(y, doc). validate_yaml_against_schema re doc sch \<noteq> Inr []) ys"
proof (induction ys arbitrary: bad)
  case Nil
  then show ?case by simp
next
  case (Cons a ys)
  obtain y doc where a: "a = (y, doc)" by (cases a)
  from Cons.prems a obtain errs bad' where
    v: "validate_yaml_against_schema re doc sch = Inr errs"
    and b: "bad_yamls re sch ys = Inr bad'"
    and bad: "bad = (if errs \<noteq> [] then [(y, errs)] else []) @ bad'"
    by (auto split: sum.splits)
  from Cons.IH[OF b] v bad a show ?case by auto
qed

text \<open>
  C1, as the code has it. When \<^verbatim>\<open>main\<close> returns, its status is nonzero if and only if a required
  directory or the schema file is absent, or some chunk has no record, or some record has
  violations. A record without a matching chunk is reported, but is not counted in
  \<open>problems\<close>: by itself it leaves the status at zero.
\<close>

theorem verify_exit_status:
  assumes "main re env = Inr code"
  shows "(code \<noteq> 0) =
           (\<not> chunks_dir_exists env \<or> \<not> out_dir_exists env \<or>
            (case schema_file env of
               None \<Rightarrow> True
             | Some sch \<Rightarrow>
                 list_ex (\<lambda>c. c \<notin> set (map fst (yaml_docs env))) (chunk_stems env) \<or>
                 list_ex (\<lambda>(y, doc). validate_yaml_against_schema re doc sch \<noteq> Inr [])
                   (yaml_docs env)))"
proof (cases "chunks_dir_exists env \<and> out_dir_exists env \<and> schema_file env \<noteq> None")
  case False
  with assms show ?thesis by (auto simp: main_def split: option.splits if_splits)
next
  case True
  then obtain sch where sch: "schema_file env = Some sch" by auto
  from assms True sch obtain bad where
    bad: "bad_yamls re sch (yaml_docs env) = Inr bad"
    and code: "code = (if int (length (filter (\<lambda>x. x \<notin> set (remdups (map fst (yaml_docs env))))
                         (remdups (chunk_stems env)))) + int (length bad) \<noteq> 0 then 1 else 0)"
    by (auto simp: main_def Let_def split: sum.splits)
  have miss: "(filter (\<lambda>x. x \<notin> set (remdups (map fst (yaml_docs env)))) (remdups (chunk_stems env)) \<noteq> []) =
              list_ex (\<lambda>c. c \<notin> set (map fst (yaml_docs env))) (chunk_stems env)"
    by (auto simp: filter_empty_conv list_ex_iff)
  have sum0: "(int (length xs) + int (length bad) \<noteq> 0) = (xs \<noteq> [] \<or> bad \<noteq> [])" for xs :: "string list"
    by (cases xs; cases bad) auto
  have "(code \<noteq> 0) =
        (list_ex (\<lambda>c. c \<notin> set (map fst (yaml_docs env))) (chunk_stems env) \<or> bad \<noteq> [])"
    unfolding code sum0 miss by simp
  with bad_yamls_nonempty[OF bad] True sch show ?thesis by simp
qed

theorem verify_exit_status_witness:
  "main (\<lambda>p s. Some True)
     \<lparr>chunks_dir_exists = True, out_dir_exists = True,
      schema_file = Some \<lparr>schema_fields = [], schema_derived = []\<rparr>,
      chunk_stems = [''ch_0001'', ''ch_0002''],
      yaml_docs = [(''ch_0001'', Some (YDict []))]\<rparr> = Inr 1 \<and>
   list_ex (\<lambda>c. c \<notin> set (map fst [(''ch_0001'', Some (YDict []))])) [''ch_0001'', ''ch_0002'']"
proof -
  let ?env = "\<lparr>chunks_dir_exists = True, out_dir_exists = True,
      schema_file = Some \<lparr>schema_fields = [], schema_derived = []\<rparr>,
      chunk_stems = [''ch_0001'', ''ch_0002''],
      yaml_docs = [(''ch_0001'', Some (YDict []))]\<rparr>"
  have m: "main (\<lambda>p s. Some True) ?env = Inr 1"
    by (simp add: main_def validate_yaml_against_schema_def)
  from verify_exit_status[OF m] m show ?thesis by simp
qed

theorem extra_record_exit_zero_counterexample:
  "''ch_0001'' \<notin> set (chunk_stems
     \<lparr>chunks_dir_exists = True, out_dir_exists = True,
      schema_file = Some \<lparr>schema_fields = [], schema_derived = []\<rparr>,
      chunk_stems = [],
      yaml_docs = [(''ch_0001'', Some (YDict []))]\<rparr>) \<and>
   main (\<lambda>p s. Some True)
     \<lparr>chunks_dir_exists = True, out_dir_exists = True,
      schema_file = Some \<lparr>schema_fields = [], schema_derived = []\<rparr>,
      chunk_stems = [],
      yaml_docs = [(''ch_0001'', Some (YDict []))]\<rparr> = Inr 0"
  by (simp add: main_def validate_yaml_against_schema_def)

section \<open>The skeleton passed back to the validator\<close>

lemma key_eq_canon: "key_eq k x = (hashable k \<and> canon k = canon x)"
  by (cases k; cases x) (auto simp: key_eq_def)

lemma dict_get_dict_set:
  "hashable k \<Longrightarrow> dict_get (dict_set k v d) k' = (if key_eq k' k then Some v else dict_get d k')"
  by (induction d) (auto simp: key_eq_canon)

lemma dict_set_keys: "fst ` set (dict_set k v d) \<subseteq> insert k (fst ` set d)"
  by (induction d) (auto split: if_splits, force+)

lemma field_value_hashable:
  "field_value f n first_turn last_turn drv = Inr v \<Longrightarrow> hashable n"
  by (auto simp: field_value_def derived_value_def py_get_def split: sum.splits if_splits)

lemma fget_name: "dict_get f (YStr ''name'') = Some n \<Longrightarrow> fget f ''name'' = n"
  by (simp add: fget_def fget_default_def)

lemma skeleton_loop_other:
  "skeleton_loop fs first_turn last_turn drv out = Inr data \<Longrightarrow>
   \<forall>f \<in> set fs. canon (fget f ''name'') \<noteq> canon k \<Longrightarrow>
   dict_get data k = dict_get out k"
proof (induction fs arbitrary: out)
  case Nil
  then show ?case by simp
next
  case (Cons f fs)
  from Cons.prems(1) obtain n v where
    n: "dict_get f (YStr ''name'') = Some n"
    and v: "field_value f n first_turn last_turn drv = Inr v"
    and rest: "skeleton_loop fs first_turn last_turn drv (dict_set n v out) = Inr data"
    by (auto split: option.splits sum.splits)
  from Cons.prems(2) have "\<forall>g \<in> set fs. canon (fget g ''name'') \<noteq> canon k" by simp
  from Cons.IH[OF rest this] have "dict_get data k = dict_get (dict_set n v out) k" .
  also from Cons.prems(2) fget_name[OF n] have "\<not> key_eq k n" by (auto simp: key_eq_canon)
  with field_value_hashable[OF v] have "dict_get (dict_set n v out) k = dict_get out k"
    by (simp add: dict_get_dict_set)
  finally show ?case .
qed

lemma skeleton_loop_lookup:
  "skeleton_loop fs first_turn last_turn drv out = Inr data \<Longrightarrow> distinct_names fs \<Longrightarrow> f \<in> set fs \<Longrightarrow>
   \<exists>v. field_value f (fget f ''name'') first_turn last_turn drv = Inr v \<and>
       hashable (fget f ''name'') \<and> dict_get data (fget f ''name'') = Some v"
proof (induction fs arbitrary: out)
  case Nil
  then show ?case by simp
next
  case (Cons g fs)
  from Cons.prems(1) obtain n v where
    n: "dict_get g (YStr ''name'') = Some n"
    and v: "field_value g n first_turn last_turn drv = Inr v"
    and rest: "skeleton_loop fs first_turn last_turn drv (dict_set n v out) = Inr data"
    by (auto split: option.splits sum.splits)
  note gn = fget_name[OF n]
  note hn = field_value_hashable[OF v]
  from Cons.prems(2) have dist: "distinct_names fs"
    and other: "\<forall>h \<in> set fs. canon (fget h ''name'') \<noteq> canon n"
    using gn by (auto simp: distinct_names_def image_iff)
  show ?case
  proof (cases "f = g")
    case True
    from skeleton_loop_other[OF rest other] hn
    have "dict_get data n = Some v" by (simp add: dict_get_dict_set key_eq_canon)
    with True gn v hn show ?thesis by simp
  next
    case False
    with Cons.prems(3) have "f \<in> set fs" by simp
    from Cons.IH[OF rest dist this] show ?thesis .
  qed
qed

lemma skeleton_loop_keys:
  "skeleton_loop fs first_turn last_turn drv out = Inr data \<Longrightarrow> k \<in> fst ` set data \<Longrightarrow>
   k \<in> fst ` set out \<or> (\<exists>f \<in> set fs. fget f ''name'' = k \<and> hashable k)"
proof (induction fs arbitrary: out)
  case Nil
  then show ?case by simp
next
  case (Cons g fs)
  from Cons.prems(1) obtain n v where
    n: "dict_get g (YStr ''name'') = Some n"
    and v: "field_value g n first_turn last_turn drv = Inr v"
    and rest: "skeleton_loop fs first_turn last_turn drv (dict_set n v out) = Inr data"
    by (auto split: option.splits sum.splits)
  from Cons.IH[OF rest Cons.prems(2)] consider
    "k \<in> fst ` set (dict_set n v out)" | "\<exists>f \<in> set fs. fget f ''name'' = k \<and> hashable k" by blast
  then show ?case
  proof cases
    case 1
    with dict_set_keys[of n v out] have "k = n \<or> k \<in> fst ` set out" by auto
    with fget_name[OF n] field_value_hashable[OF v] show ?thesis by auto
  next
    case 2
    then show ?thesis by auto
  qed
qed

lemma check_fields_all_ok:
  "\<forall>f \<in> set fs. check_field re data f = Inr [] \<Longrightarrow> check_fields re data fs = Inr []"
  by (induction fs) auto

lemma skeleton_round_trip_fields:
  assumes "make_skeleton sch first_turn last_turn = Inr data"
    and "distinct_names (schema_fields sch)"
  shows "(\<forall>f \<in> set (schema_fields sch).
            \<exists>v. field_value f (fget f ''name'') first_turn last_turn (schema_derived sch) = Inr v \<and>
                check_field re data f = validate_field re v f) \<and>
         filter (\<lambda>k. \<not> list_ex (key_eq k) (map (\<lambda>f. fget f ''name'') (schema_fields sch)))
           (map fst data) = [] \<and>
         ((\<forall>f \<in> set (schema_fields sch). \<forall>v.
              field_value f (fget f ''name'') first_turn last_turn (schema_derived sch) = Inr v \<longrightarrow>
              validate_field re v f = Inr []) \<longrightarrow>
          validate_yaml_against_schema re (Some (YDict data)) sch = Inr [])"
proof -
  from assms(1) have loop:
    "skeleton_loop (schema_fields sch) first_turn last_turn (schema_derived sch) [] = Inr data"
    by (simp add: make_skeleton_def)
  have per_field: "\<forall>f \<in> set (schema_fields sch).
      \<exists>v. field_value f (fget f ''name'') first_turn last_turn (schema_derived sch) = Inr v \<and>
          check_field re data f = validate_field re v f"
  proof
    fix f assume "f \<in> set (schema_fields sch)"
    from skeleton_loop_lookup[OF loop assms(2) this] obtain v where
      "field_value f (fget f ''name'') first_turn last_turn (schema_derived sch) = Inr v"
      "hashable (fget f ''name'')" "dict_get data (fget f ''name'') = Some v" by blast
    then show "\<exists>v. field_value f (fget f ''name'') first_turn last_turn (schema_derived sch) = Inr v \<and>
          check_field re data f = validate_field re v f"
      by (auto simp: check_field_def py_get_def)
  qed
  have no_extra: "filter (\<lambda>k. \<not> list_ex (key_eq k) (map (\<lambda>f. fget f ''name'') (schema_fields sch)))
           (map fst data) = []"
  proof -
    have "list_ex (key_eq k) (map (\<lambda>f. fget f ''name'') (schema_fields sch))"
      if "k \<in> fst ` set data" for k
    proof -
      from skeleton_loop_keys[OF loop that] obtain f where
        "f \<in> set (schema_fields sch)" "fget f ''name'' = k" "hashable k" by auto
      then show ?thesis by (auto simp: list_ex_iff key_eq_canon)
    qed
    then show ?thesis by (auto simp: filter_empty_conv)
  qed
  have zero: "validate_yaml_against_schema re (Some (YDict data)) sch = Inr []"
    if ok: "\<forall>f \<in> set (schema_fields sch). \<forall>v.
              field_value f (fget f ''name'') first_turn last_turn (schema_derived sch) = Inr v \<longrightarrow>
              validate_field re v f = Inr []"
  proof -
    from per_field ok have "\<forall>f \<in> set (schema_fields sch). check_field re data f = Inr []"
      by fastforce
    from check_fields_all_ok[OF this] no_extra show ?thesis
      by (simp add: validate_yaml_against_schema_def Let_def)
  qed
  from per_field no_extra zero show ?thesis by blast
qed

lemma blank_dict_has:
  "blank_dict ks d0 = Inr d \<Longrightarrow>
   (\<forall>k \<in> set ks. hashable k \<and> dict_get d k \<noteq> None) \<and>
   (\<forall>k. dict_get d0 k \<noteq> None \<longrightarrow> dict_get d k \<noteq> None)"
proof (induction ks arbitrary: d0)
  case Nil
  then show ?case by simp
next
  case (Cons a ks)
  from Cons.prems have ha: "hashable a"
    and rest: "blank_dict ks (dict_set a (YStr []) d0) = Inr d"
    by (auto split: if_splits)
  from Cons.IH[OF rest] have
    1: "\<forall>k \<in> set ks. hashable k \<and> dict_get d k \<noteq> None"
    and 2: "\<forall>k. dict_get (dict_set a (YStr []) d0) k \<noteq> None \<longrightarrow> dict_get d k \<noteq> None"
    by blast+
  from ha have "dict_get (dict_set a (YStr []) d0) a \<noteq> None"
    by (simp add: dict_get_dict_set key_eq_canon)
  with 2 have a: "dict_get d a \<noteq> None" by blast
  have "dict_get d k \<noteq> None" if "dict_get d0 k \<noteq> None" for k
  proof -
    from that ha have "dict_get (dict_set a (YStr []) d0) k \<noteq> None"
      by (simp add: dict_get_dict_set)
    with 2 show ?thesis by blast
  qed
  with 1 a ha show ?case by auto
qed

lemma dict_missing_none:
  "\<forall>k \<in> set ks. hashable k \<and> dict_get d k \<noteq> None \<Longrightarrow> dict_missing name ks d = Inr []"
  by (induction ks) (auto simp: py_in_def)

lemma plain_default_valid:
  assumes "plain_field f" and "default_value_for_field f = Inr v"
  shows "validate_field re v f = Inr []"
proof -
  from assms(1) consider
    (s) "fget f ''type'' = YStr ''string''" | (l) "fget f ''type'' = YStr ''list''"
    | (d) "fget f ''type'' = YStr ''dict''"
    by (auto simp: plain_field_def)
  then show ?thesis
  proof cases
    case s
    with assms show ?thesis
      by (auto simp: plain_field_def default_value_for_field_def validate_field_def strip_def Let_def
          split: option.splits)
  next
    case l
    with assms show ?thesis
      by (auto simp: plain_field_def default_value_for_field_def validate_field_def Let_def
          split: option.splits)
  next
    case d
    with assms(2) obtain ks dd where
      ks: "py_iter (fget_default f ''dict_keys'' (YList [])) = Inr ks"
      and dd: "blank_dict ks [] = Inr dd" and v: "v = YDict dd"
      by (auto simp: default_value_for_field_def Let_def split: sum.splits)
    from blank_dict_has[OF dd] have "dict_missing (fget f ''name'') ks dd = Inr []"
      by (intro dict_missing_none) blast
    with d ks v assms(1) show ?thesis
      by (simp add: plain_field_def validate_field_def Let_def)
  qed
qed

lemma no_rule_default:
  assumes "no_rule drv f" and "field_value f (fget f ''name'') first_turn last_turn drv = Inr v"
  shows "default_value_for_field f = Inr v"
  using assms
  by (auto simp: no_rule_def field_value_def derived_value_def py_get_def
      split: sum.splits if_splits option.splits)

lemma check_fields_generated:
  "\<forall>f \<in> set fs. \<exists>v. field_value f (fget f ''name'') first_turn last_turn drv = Inr v \<and>
                     check_field re data f = validate_field re v f \<Longrightarrow>
   check_fields re data fs = generated_checks re fs first_turn last_turn drv"
proof (induction fs)
  case Nil
  then show ?case by simp
next
  case (Cons f fs)
  from Cons.prems obtain v where
    v: "field_value f (fget f ''name'') first_turn last_turn drv = Inr v"
    and c: "check_field re data f = validate_field re v f" by auto
  from Cons.prems have "check_fields re data fs = generated_checks re fs first_turn last_turn drv"
    by (intro Cons.IH) simp
  with v c show ?case by (simp split: sum.splits)
qed

lemma dict_missing_kinds:
  "dict_missing name ks d = Inr es \<Longrightarrow> list_all (\<lambda>e. \<not> structural e) es"
  by (induction ks arbitrary: es) (auto split: sum.splits)

lemma validate_field_kinds:
  assumes "validate_field re v f = Inr es"
  shows "list_all (\<lambda>e. \<not> structural e) es"
proof (cases "v = YNull")
  case True
  with assms show ?thesis by (auto simp: validate_field_def Let_def split: if_splits)
next
  case nn: False
  show ?thesis
  proof (cases "fget f ''type'' = YStr ''string''")
    case True
    with nn assms show ?thesis
      by (cases v) (auto simp: validate_field_def Let_def split: if_splits option.splits yval.splits)
  next
    case ns: False
    show ?thesis
    proof (cases "fget f ''type'' = YStr ''list''")
      case True
      with nn ns assms show ?thesis
        by (cases v) (auto simp: validate_field_def Let_def split: if_splits option.splits)
    next
      case nl: False
      show ?thesis
      proof (cases "fget f ''type'' = YStr ''dict''")
        case True
        with nn ns nl assms show ?thesis
          by (cases v)
             (auto simp: validate_field_def Let_def dest: dict_missing_kinds
                   split: if_splits sum.splits)
      next
        case False
        with nn ns nl assms show ?thesis by (auto simp: validate_field_def Let_def)
      qed
    qed
  qed
qed

lemma generated_checks_kinds:
  "generated_checks re fs first_turn last_turn drv = Inr es \<Longrightarrow> list_all (\<lambda>e. \<not> structural e) es"
  by (induction fs arbitrary: es) (auto split: sum.splits dest: validate_field_kinds)

lemma generated_checks_all_ok:
  "\<forall>f \<in> set fs. \<exists>v. field_value f (fget f ''name'') first_turn last_turn drv = Inr v \<and>
                     validate_field re v f = Inr [] \<Longrightarrow>
   generated_checks re fs first_turn last_turn drv = Inr []"
  by (induction fs) auto

text \<open>
  C2, as the code has it. Take a schema whose field names are pairwise different, a record
  that \<^verbatim>\<open>make_skeleton\<close> returns for it, and a stored document that decodes back to that same
  record (\<open>dump\<close> and \<open>load\<close> stand for \<^verbatim>\<open>yaml.safe_dump\<close> and \<^verbatim>\<open>yaml.safe_load\<close>). Validated
  against the same schema, the document gives exactly, field by field in schema order, what
  \<^verbatim>\<open>validate_field\<close> gives on the value generated for that field: there is no parse, root or
  "extra keys" violation. So there are zero violations whenever every generated value meets
  the constraints of its own field; this is so, in particular, when every field is of type
  string, list or dict, has no derivation rule bound, and declares no content constraint that
  the empty default fails (\<open>non_empty\<close>, \<open>pattern\<close>, \<open>non_empty_any\<close>, a negative \<open>max_chars\<close> or
  \<open>max_items\<close>, a positive \<open>min_items\<close> or \<open>min_non_empty_items\<close>). A string field with
  \<open>non_empty: false\<close> and its fresh empty value yields no violation; with \<open>non_empty: true\<close> the
  same value yields exactly one.
\<close>

theorem skeleton_round_trip:
  assumes "make_skeleton sch first_turn last_turn = Inr data"
    and "distinct_names (schema_fields sch)"
    and "load (dump data) = Some (YDict data)"
  shows "validate_yaml_against_schema re (load (dump data)) sch =
           generated_checks re (schema_fields sch) first_turn last_turn (schema_derived sch) \<and>
         (\<forall>es. validate_yaml_against_schema re (load (dump data)) sch = Inr es \<longrightarrow>
               list_all (\<lambda>e. \<not> structural e) es) \<and>
         ((\<forall>f \<in> set (schema_fields sch). \<forall>v.
              field_value f (fget f ''name'') first_turn last_turn (schema_derived sch) = Inr v \<longrightarrow>
              validate_field re v f = Inr []) \<longrightarrow>
          validate_yaml_against_schema re (load (dump data)) sch = Inr []) \<and>
         ((\<forall>f \<in> set (schema_fields sch). plain_field f \<and> no_rule (schema_derived sch) f) \<longrightarrow>
          validate_yaml_against_schema re (load (dump data)) sch = Inr [])"
proof -
  note fields = skeleton_round_trip_fields[OF assms(1,2), of re]
  from fields have per_field: "\<forall>f \<in> set (schema_fields sch).
      \<exists>v. field_value f (fget f ''name'') first_turn last_turn (schema_derived sch) = Inr v \<and>
          check_field re data f = validate_field re v f"
    and no_extra: "filter (\<lambda>k. \<not> list_ex (key_eq k) (map (\<lambda>f. fget f ''name'') (schema_fields sch)))
           (map fst data) = []"
    by blast+
  from check_fields_generated[OF per_field] no_extra
  have eq: "validate_yaml_against_schema re (load (dump data)) sch =
           generated_checks re (schema_fields sch) first_turn last_turn (schema_derived sch)"
    by (simp add: assms(3) validate_yaml_against_schema_def Let_def split: sum.splits)
  have kinds: "\<forall>es. validate_yaml_against_schema re (load (dump data)) sch = Inr es \<longrightarrow>
               list_all (\<lambda>e. \<not> structural e) es"
    unfolding eq using generated_checks_kinds by blast
  have general: "validate_yaml_against_schema re (load (dump data)) sch = Inr []"
    if ok: "\<forall>f \<in> set (schema_fields sch). \<forall>v.
              field_value f (fget f ''name'') first_turn last_turn (schema_derived sch) = Inr v \<longrightarrow>
              validate_field re v f = Inr []"
  proof -
    from per_field ok have "\<forall>f \<in> set (schema_fields sch).
        \<exists>v. field_value f (fget f ''name'') first_turn last_turn (schema_derived sch) = Inr v \<and>
            validate_field re v f = Inr []"
      by blast
    from generated_checks_all_ok[OF this] show ?thesis unfolding eq .
  qed
  have plain: "validate_yaml_against_schema re (load (dump data)) sch = Inr []"
    if pl: "\<forall>f \<in> set (schema_fields sch). plain_field f \<and> no_rule (schema_derived sch) f"
  proof -
    have "\<forall>f \<in> set (schema_fields sch). \<forall>v.
              field_value f (fget f ''name'') first_turn last_turn (schema_derived sch) = Inr v \<longrightarrow>
              validate_field re v f = Inr []"
      using pl no_rule_default plain_default_valid by blast
    then show ?thesis by (rule general)
  qed
  from eq kinds general plain show ?thesis by blast
qed

theorem skeleton_round_trip_witness:
  "make_skeleton
     \<lparr>schema_fields = [[(YStr ''name'', YStr ''summary''), (YStr ''type'', YStr ''string''),
                        (YStr ''required'', YBool True), (YStr ''non_empty'', YBool False)]],
      schema_derived = []\<rparr>
     \<lparr>idx = 1, timestamp = ''2024-01-01 09:15:00'', speaker = ''A'', content = ''hi''\<rparr>
     \<lparr>idx = 2, timestamp = ''2024-01-01 09:20:00'', speaker = ''B'', content = ''yo''\<rparr>
     = Inr [(YStr ''summary'', YStr [])] \<and>
   (\<lambda>s. if s = ''summary: '' @ [CHR 0x27, CHR 0x27, CHR 0x0A]
          then Some (YDict [(YStr ''summary'', YStr [])]) else None)
     ((\<lambda>d. ''summary: '' @ [CHR 0x27, CHR 0x27, CHR 0x0A]) [(YStr ''summary'', YStr [])])
     = Some (YDict [(YStr ''summary'', YStr [])]) \<and>
   validate_yaml_against_schema (\<lambda>p s. Some True)
     ((\<lambda>s. if s = ''summary: '' @ [CHR 0x27, CHR 0x27, CHR 0x0A]
           then Some (YDict [(YStr ''summary'', YStr [])]) else None)
      ((\<lambda>d. ''summary: '' @ [CHR 0x27, CHR 0x27, CHR 0x0A]) [(YStr ''summary'', YStr [])]))
     \<lparr>schema_fields = [[(YStr ''name'', YStr ''summary''), (YStr ''type'', YStr ''string''),
                        (YStr ''required'', YBool True), (YStr ''non_empty'', YBool False)]],
      schema_derived = []\<rparr>
     = Inr []"
proof -
  let ?f = "[(YStr ''name'', YStr ''summary''), (YStr ''type'', YStr ''string''),
             (YStr ''required'', YBool True), (YStr ''non_empty'', YBool False)]"
  let ?sch = "\<lparr>schema_fields = [?f], schema_derived = []\<rparr>"
  let ?t1 = "\<lparr>idx = 1, timestamp = ''2024-01-01 09:15:00'', speaker = ''A'', content = ''hi''\<rparr>"
  let ?t2 = "\<lparr>idx = 2, timestamp = ''2024-01-01 09:20:00'', speaker = ''B'', content = ''yo''\<rparr>"
  let ?dump = "\<lambda>d :: pydict. ''summary: '' @ [CHR 0x27, CHR 0x27, CHR 0x0A]"
  let ?load = "\<lambda>s. if s = ''summary: '' @ [CHR 0x27, CHR 0x27, CHR 0x0A]
                   then Some (YDict [(YStr ''summary'', YStr [])]) else None"
  have sk: "make_skeleton ?sch ?t1 ?t2 = Inr [(YStr ''summary'', YStr [])]"
    by (simp add: make_skeleton_def field_value_def derived_value_def py_get_def
        default_value_for_field_def fget_def fget_default_def key_eq_def)
  have dn: "distinct_names (schema_fields ?sch)" by (simp add: distinct_names_def)
  have ld: "?load (?dump [(YStr ''summary'', YStr [])]) = Some (YDict [(YStr ''summary'', YStr [])])"
    by simp
  have pl: "\<forall>f \<in> set (schema_fields ?sch). plain_field f \<and> no_rule (schema_derived ?sch) f"
    by (simp add: plain_field_def no_rule_def fget_def fget_default_def key_eq_def)
  from skeleton_round_trip[of ?sch ?t1 ?t2 _ ?load ?dump "\<lambda>p s. Some True", OF sk dn ld] pl
  have "validate_yaml_against_schema (\<lambda>p s. Some True) (?load (?dump [(YStr ''summary'', YStr [])])) ?sch = Inr []"
    by blast
  with sk ld show ?thesis by blast
qed

theorem non_empty_round_trip_counterexample:
  "make_skeleton
     \<lparr>schema_fields = [[(YStr ''name'', YStr ''summary''), (YStr ''type'', YStr ''string''),
                        (YStr ''required'', YBool True), (YStr ''non_empty'', YBool True)]],
      schema_derived = []\<rparr>
     \<lparr>idx = 1, timestamp = ''2024-01-01 09:15:00'', speaker = ''A'', content = ''hi''\<rparr>
     \<lparr>idx = 2, timestamp = ''2024-01-01 09:20:00'', speaker = ''B'', content = ''yo''\<rparr>
     = Inr [(YStr ''summary'', YStr [])] \<and>
   validate_yaml_against_schema (\<lambda>p s. Some True) (Some (YDict [(YStr ''summary'', YStr [])]))
     \<lparr>schema_fields = [[(YStr ''name'', YStr ''summary''), (YStr ''type'', YStr ''string''),
                        (YStr ''required'', YBool True), (YStr ''non_empty'', YBool True)]],
      schema_derived = []\<rparr>
     = Inr [IsEmpty (YStr ''summary'')]"
  by (simp add: make_skeleton_def field_value_def derived_value_def py_get_def
      default_value_for_field_def fget_def fget_default_def key_eq_def
      validate_yaml_against_schema_def check_field_def validate_field_def strip_def)

end
